theory Spec2Isabelle
  imports Main
begin

section \<open>Python string operations used by \<open>convert_summary.py\<close>\<close>

text \<open>
  A Python \<open>str\<close> is modelled as a \<open>string\<close> (a list of \<open>char\<close>); a \<open>char\<close> stands for
  a code point below 256, so the model covers Latin-1 text. The program only ever compares
  characters with ASCII literals and asks whether a character is white space.
\<close>

definition newline :: char where
  "newline = CHR 0x0A"

text \<open>
  \<open>str.isspace\<close> on the code points below 256: TAB, LF, VT, FF, CR, the four separators
  FS, GS, RS, US, the space, NEL and the no-break space. These are the characters that
  \<open>rstrip()\<close> and \<open>strip()\<close> remove.
\<close>

definition isspace :: "char \<Rightarrow> bool" where
  "isspace c \<longleftrightarrow>
     c \<in> {CHR 0x09, CHR 0x0A, CHR 0x0B, CHR 0x0C, CHR 0x0D,
          CHR 0x1C, CHR 0x1D, CHR 0x1E, CHR 0x1F, CHR 0x20, CHR 0x85, CHR 0xA0}"

definition lstrip :: "string \<Rightarrow> string" where
  "lstrip s = dropWhile isspace s"

definition rstrip :: "string \<Rightarrow> string" where
  "rstrip s = rev (dropWhile isspace (rev s))"

definition strip :: "string \<Rightarrow> string" where
  "strip s = lstrip (rstrip s)"

text \<open>\<open>s.startswith(p)\<close>.\<close>

definition startswith :: "string \<Rightarrow> string \<Rightarrow> bool" where
  "startswith s p \<longleftrightarrow> take (length p) s = p"

text \<open>\<open>sub in s\<close>: \<open>sub\<close> occurs in \<open>s\<close> as a contiguous substring.\<close>

fun contains :: "string \<Rightarrow> string \<Rightarrow> bool" where
  "contains [] sub = (sub = [])"
| "contains (c # cs) sub = (startswith (c # cs) sub \<or> contains cs sub)"

text \<open>
  \<open>s.split(sep)\<close> for a one-character separator: \<open>n\<close> separators give \<open>n + 1\<close> fields,
  empty ones included.
\<close>

fun split :: "string \<Rightarrow> char \<Rightarrow> string list" where
  "split [] sep = [[]]"
| "split (c # cs) sep =
     (if c = sep then [] # split cs sep
      else (case split cs sep of
              [] \<Rightarrow> [[c]]
            | f # fs \<Rightarrow> (c # f) # fs))"

text \<open>The slice \<open>xs[1:-1]\<close>: the list without its first and its last element.\<close>

definition slice_1_m1 :: "'a list \<Rightarrow> 'a list" where
  "slice_1_m1 xs = butlast (tl xs)"

text \<open>\<open>sep.join(xs)\<close>.\<close>

fun join :: "string \<Rightarrow> string list \<Rightarrow> string" where
  "join sep [] = []"
| "join sep [x] = x"
| "join sep (x # y # ys) = x @ sep @ join sep (y # ys)"

text \<open>
  \<open>s.replace(old, new)\<close>: every non-overlapping occurrence of \<open>old\<close>, found from the left,
  becomes \<open>new\<close>. With an empty \<open>old\<close> Python puts \<open>new\<close> before every character and at
  the end.
\<close>

function replace :: "string \<Rightarrow> string \<Rightarrow> string \<Rightarrow> string" where
  "replace s old new =
     (if old = [] then new @ concat (map (\<lambda>c. c # new) s)
      else if s = [] then []
      else if startswith s old then new @ replace (drop (length old) s) old new
      else hd s # replace (tl s) old new)"
  by pat_completeness auto
termination
  by (relation "measure (\<lambda>(s, old, new). length s)") auto

section \<open>The inline formatter\<close>

text \<open>
  The four span patterns have the shape \<open>D(.+?)D\<close> for a literal delimiter \<open>D\<close>
  (\<open>***\<close>, \<open>**\<close>, \<open>*\<close> or a backtick). At a given start the regular expression
  engine reads \<open>D\<close>, then one character for \<open>.+?\<close> (any character but a newline), and
  then tries \<open>D\<close>; when \<open>D\<close> is not there it gives \<open>.+?\<close> one more character and tries
  again, and it fails at this start when the next character is a newline or the text
  ends. \<open>find_close d body s\<close> is this loop: \<open>body\<close> is what \<open>.+?\<close> holds so far and
  \<open>s\<close> the text that follows it. The result is the group and the text after the match.
\<close>

fun find_close :: "string \<Rightarrow> string \<Rightarrow> string \<Rightarrow> (string \<times> string) option" where
  "find_close d body [] = (if startswith [] d then Some (body, []) else None)"
| "find_close d body (c # cs) =
     (if startswith (c # cs) d then Some (body, drop (length d) (c # cs))
      else if c = newline then None
      else find_close d (body @ [c]) cs)"

definition match_span :: "string \<Rightarrow> string \<Rightarrow> (string \<times> string) option" where
  "match_span d s =
     (if startswith s d then
        (case drop (length d) s of
           [] \<Rightarrow> None
         | c # cs \<Rightarrow> if c = newline then None else find_close d [c] cs)
      else None)"

lemma find_close_shorter:
  "find_close d body s = Some (g, r) \<Longrightarrow> length r \<le> length s"
proof (induction s arbitrary: body)
  case Nil
  then show ?case by (simp split: if_splits)
next
  case (Cons c cs)
  show ?case
  proof (cases "startswith (c # cs) d")
    case True
    with Cons.prems show ?thesis by auto
  next
    case False
    with Cons.prems have "find_close d (body @ [c]) cs = Some (g, r)"
      by (simp split: if_splits)
    then have "length r \<le> length cs" by (rule Cons.IH)
    then show ?thesis by simp
  qed
qed

lemma match_span_shorter:
  "match_span d s = Some (g, r) \<Longrightarrow> length r < length s"
proof -
  assume m: "match_span d s = Some (g, r)"
  then obtain c cs where dr: "drop (length d) s = c # cs"
    and fc: "find_close d [c] cs = Some (g, r)"
    by (auto simp: match_span_def split: if_splits list.splits)
  have "length r \<le> length cs" using fc by (rule find_close_shorter)
  moreover have "length cs < length (drop (length d) s)" by (simp add: dr)
  ultimately show ?thesis by simp
qed

text \<open>
  \<open>re.sub(D(.+?)D, open\1close, s)\<close>: the text is scanned from the left; where the
  pattern matches, the match is replaced and the scan goes on behind it; elsewhere the
  character is copied.
\<close>

function sub_span :: "string \<Rightarrow> string \<Rightarrow> string \<Rightarrow> string \<Rightarrow> string" where
  "sub_span d opn cls s =
     (if s = [] then []
      else (case match_span d s of
              Some (g, r) \<Rightarrow> opn @ g @ cls @ sub_span d opn cls r
            | None \<Rightarrow> hd s # sub_span d opn cls (tl s)))"
  by pat_completeness auto
termination
  by (relation "measure (\<lambda>(d, opn, cls, s). length s)")
     (auto dest: match_span_shorter)

text \<open>
  The pattern \<open>&lt;(font[^&]*)&gt;\<close>: after the literal \<open>&lt;font\<close> the class \<open>[^&]*\<close>
  takes every character up to the next \<open>&\<close> (it is greedy, and giving characters back
  cannot help, since \<open>&gt;\<close> starts with the one character the class excludes); then
  \<open>&gt;\<close> must follow.
\<close>

definition match_font :: "string \<Rightarrow> (string \<times> string) option" where
  "match_font s =
     (if startswith s ''&lt;font'' then
        (let after = drop 8 s;
             body = takeWhile (\<lambda>c. c \<noteq> CHR ''&'') after;
             rest = dropWhile (\<lambda>c. c \<noteq> CHR ''&'') after
         in if startswith rest ''&gt;'' then Some (''font'' @ body, drop 4 rest)
            else None)
      else None)"

lemma match_font_shorter:
  "match_font s = Some (g, r) \<Longrightarrow> length r < length s"
proof -
  assume m: "match_font s = Some (g, r)"
  then have sw: "startswith s ''&lt;font''"
    and r: "r = drop 4 (dropWhile (\<lambda>c. c \<noteq> CHR ''&'') (drop 8 s))"
    by (auto simp: match_font_def Let_def split: if_splits)
  have "length (dropWhile (\<lambda>c. c \<noteq> CHR ''&'') (drop 8 s)) \<le> length (drop 8 s)"
    by (rule length_dropWhile_le)
  moreover have "s \<noteq> []" using sw by (auto simp: startswith_def)
  ultimately show ?thesis using r by (cases s) auto
qed

function sub_font :: "string \<Rightarrow> string" where
  "sub_font s =
     (if s = [] then []
      else (case match_font s of
              Some (g, r) \<Rightarrow> ''<'' @ g @ ''>'' @ sub_font r
            | None \<Rightarrow> hd s # sub_font (tl s)))"
  by pat_completeness auto
termination
  by (relation "measure length") (auto dest: match_font_shorter)

definition font_open :: string where
  \<open>font_open = ''<font face="Courier" size="9" color="#c0392b">''\<close>

text \<open>
  \<open>format_inline\<close> is a straight line of ten assignments to \<open>text\<close>. They are grouped
  here into three stages, in the order of the source: the \<open>&\<close> escape and the four span
  substitutions, the escape of \<open><\<close> and \<open>>\<close>, and the reversal of that escape for the
  tag strings.
\<close>

definition span_markup :: "string \<Rightarrow> string" where
  "span_markup text =
     (let text = replace text ''&'' ''&amp;'';
          text = sub_span ''***'' ''<b><i>'' ''</i></b>'' text;
          text = sub_span ''**'' ''<b>'' ''</b>'' text;
          text = sub_span ''*'' ''<i>'' ''</i>'' text;
          text = sub_span ''`'' font_open ''</font>'' text
      in text)"

definition escape_angle :: "string \<Rightarrow> string" where
  "escape_angle text = replace (replace text ''<'' ''&lt;'') ''>'' ''&gt;''"

definition unescape_tags :: "string \<Rightarrow> string" where
  "unescape_tags text =
     (let text = replace (replace text ''&lt;b&gt;'' ''<b>'') ''&lt;/b&gt;'' ''</b>'';
          text = replace (replace text ''&lt;i&gt;'' ''<i>'') ''&lt;/i&gt;'' ''</i>'';
          text = replace text ''&lt;/font&gt;'' ''</font>'';
          text = sub_font text
      in text)"

definition format_inline :: "string \<Rightarrow> string" where
  "format_inline text = unescape_tags (escape_angle (span_markup text))"

section \<open>The flow elements handed to the renderer\<close>

text \<open>
  The scanner appends reportlab flowables to \<open>story\<close>. The named paragraph styles of the
  style sheet are the constructors of \<open>style\<close>. A \<open>Spacer\<close> carries its height in
  millimetres (its width is always 1), an \<open>HRFlowable\<close> its thickness in tenths of a
  point and its colour (its width is always 100 per cent). A \<open>Table\<close> carries its rows of
  cells, the header row first, and the number of columns \<open>num_cols\<close> (the column widths
  are \<open>num_cols\<close> copies of \<open>col_width\<close>); its table style is a constant.

  In the words of the specification: a Title block is a \<open>Paragraph\<close> in style
  \<open>DocTitle\<close>, a SectionHeading one in \<open>H2\<close> (after a spacer and a rule), a SubHeading
  one in \<open>H3\<close>, a ListItem one in \<open>BulletItem\<close>, a Paragraph one in \<open>BodyText2\<close>, a
  CodeBlock is a \<open>Preformatted\<close>, a Rule is spacer, thin rule, spacer.
\<close>

datatype style =
  DocTitle | H2 | H3 | BodyText2 | BulletItem | CodeBlock | TableHeader | TableCell

datatype flowable =
    Paragraph string style
  | Spacer nat
  | HRFlowable nat string
  | Preformatted string style
  | Table "flowable list list" nat

text \<open>
  The exceptions that the program can raise while it scans: \<open>IndexError\<close> from an index
  past the end, \<open>ZeroDivisionError\<close> from the column width, and \<open>ValueError\<close> from
  \<open>Paragraph(...)\<close>, which parses the markup of its text when it is built and raises when
  it does not accept it.
\<close>

datatype error = IndexError | ZeroDivisionError | ValueError

text \<open>
  \<open>Paragraph(text, style)\<close>. The markup parser belongs to the layout library, not to this
  program; which texts it accepts is the parameter \<open>accepts\<close> of the model, and every
  function that builds a paragraph takes it along.
\<close>

definition new_paragraph :: "(string \<Rightarrow> bool) \<Rightarrow> string \<Rightarrow> style \<Rightarrow> error + flowable" where
  "new_paragraph accepts text sty =
     (if accepts text then Inr (Paragraph text sty) else Inl ValueError)"

text \<open>
  A list comprehension whose element expression can raise: the elements are built from the
  left, and the first exception ends the comprehension.
\<close>

fun map_result :: "('a \<Rightarrow> error + 'b) \<Rightarrow> 'a list \<Rightarrow> error + 'b list" where
  "map_result f [] = Inr []"
| "map_result f (x # xs) =
     (case f x of
        Inl e \<Rightarrow> Inl e
      | Inr y \<Rightarrow>
          (case map_result f xs of
             Inl e \<Rightarrow> Inl e
           | Inr ys \<Rightarrow> Inr (y # ys)))"

text \<open>
  An acceptor for closed statements: it accepts the listed texts and no other.
\<close>

definition accepts_only :: "string list \<Rightarrow> string \<Rightarrow> bool" where
  "accepts_only texts t \<longleftrightarrow> t \<in> set texts"

section \<open>Tables\<close>

text \<open>
  \<open>[c.strip() for c in line.split('|')[1:-1]]\<close>, which \<open>parse_table\<close> applies to the
  header line and to every data line.
\<close>

definition row_cells :: "string \<Rightarrow> string list" where
  "row_cells line = map strip (slice_1_m1 (split line (CHR ''|'')))"

text \<open>
  The cells of the table: \<open>Paragraph(format_inline(c), styles['TableHeader'])\<close> in the
  header row and \<open>Paragraph(format_inline(c), styles['TableCell'])\<close> in a data row.
\<close>

definition header_cell :: "(string \<Rightarrow> bool) \<Rightarrow> string \<Rightarrow> error + flowable" where
  "header_cell accepts c = new_paragraph accepts (format_inline c) TableHeader"

definition data_cell :: "(string \<Rightarrow> bool) \<Rightarrow> string \<Rightarrow> error + flowable" where
  "data_cell accepts c = new_paragraph accepts (format_inline c) TableCell"

text \<open>
  For the statements about tables: whether the parser accepts the formatted text of a
  cell, and the paragraphs of a header cell and of a data cell.
\<close>

definition cell_accepted :: "(string \<Rightarrow> bool) \<Rightarrow> string \<Rightarrow> bool" where
  "cell_accepted accepts c \<longleftrightarrow> accepts (format_inline c)"

definition header_paragraph :: "string \<Rightarrow> flowable" where
  "header_paragraph c = Paragraph (format_inline c) TableHeader"

definition data_paragraph :: "string \<Rightarrow> flowable" where
  "data_paragraph c = Paragraph (format_inline c) TableCell"

text \<open>
  \<open>parse_table\<close> returns \<open>None\<close> for fewer than three lines. Otherwise it splits the
  header line and the data lines, builds the paragraphs of the header row, then those of
  the data rows, row by row, and then divides: \<open>available_width / num_cols\<close> is a float
  division and raises \<open>ZeroDivisionError\<close> when the header has no cell. The quotient
  itself, a float, is not represented.
\<close>

definition parse_table :: "(string \<Rightarrow> bool) \<Rightarrow> string list \<Rightarrow> error + flowable option" where
  "parse_table accepts table_lines =
     (if length table_lines < 3 then Inr None
      else
        (let header_cells = row_cells (table_lines ! 0);
             data_rows = map row_cells (drop 2 table_lines)
         in case map_result (header_cell accepts) header_cells of
              Inl e \<Rightarrow> Inl e
            | Inr header_row \<Rightarrow>
                (case map_result (map_result (data_cell accepts)) data_rows of
                   Inl e \<Rightarrow> Inl e
                 | Inr rows \<Rightarrow>
                     (let table_data = header_row # rows;
                          num_cols = length header_cells
                      in if num_cols = 0 then Inl ZeroDivisionError
                         else Inr (Some (Table table_data num_cols))))))"

section \<open>The block scanner\<close>

text \<open>\<open>lines[i]\<close>: an index past the end raises \<open>IndexError\<close>.\<close>

definition nth_line :: "string list \<Rightarrow> nat \<Rightarrow> error + string" where
  "nth_line lines i = (if i < length lines then Inr (lines ! i) else Inl IndexError)"

definition fence :: string where
  "fence = ''```''"

text \<open>
  The loop of the fence branch:
  \<^verbatim>\<open>while i < len(lines) and not lines[i].strip().startswith(fence):
      code_lines.append(lines[i].rstrip()); i += 1\<close>
  It returns the cursor and the collected lines.
\<close>

function collect_code :: "string list \<Rightarrow> nat \<Rightarrow> string list \<Rightarrow> error + (nat \<times> string list)" where
  "collect_code lines i code_lines =
     (if i < length lines then
        (case nth_line lines i of
           Inl e \<Rightarrow> Inl e
         | Inr l \<Rightarrow>
             if \<not> startswith (strip l) fence
             then collect_code lines (i + 1) (code_lines @ [rstrip l])
             else Inr (i, code_lines))
      else Inr (i, code_lines))"
  by pat_completeness auto
termination
  by (relation "measure (\<lambda>(lines, i, code_lines). length lines - i)") auto

text \<open>
  The loop of the table branch:
  \<^verbatim>\<open>while i < len(lines) and '|' in lines[i]:
      table_lines.append(lines[i].rstrip()); i += 1\<close>
\<close>

function collect_table :: "string list \<Rightarrow> nat \<Rightarrow> string list \<Rightarrow> error + (nat \<times> string list)" where
  "collect_table lines i table_lines =
     (if i < length lines then
        (case nth_line lines i of
           Inl e \<Rightarrow> Inl e
         | Inr l \<Rightarrow>
             if contains l ''|''
             then collect_table lines (i + 1) (table_lines @ [rstrip l])
             else Inr (i, table_lines))
      else Inr (i, table_lines))"
  by pat_completeness auto
termination
  by (relation "measure (\<lambda>(lines, i, table_lines). length lines - i)") auto

text \<open>
  The condition of the table branch,
  \<^verbatim>\<open>'|' in line and i + 1 < len(lines) and '---' in lines[i + 1]\<close>,
  with Python's evaluation from the left: \<open>lines[i + 1]\<close> is read only when the first
  two conjuncts hold.
\<close>

definition table_start :: "string list \<Rightarrow> nat \<Rightarrow> string \<Rightarrow> error + bool" where
  "table_start lines i line =
     (if contains line ''|'' \<and> i + 1 < length lines then
        (case nth_line lines (i + 1) of
           Inl e \<Rightarrow> Inl e
         | Inr nxt \<Rightarrow> Inr (contains nxt ''---''))
      else Inr False)"

text \<open>
  One iteration of the main loop at cursor \<open>i\<close>: the new cursor and the flowables that
  the iteration appends to \<open>story\<close>, in the order of the \<open>append\<close> calls. The branches
  stand in the order of the source. An exception of \<open>Paragraph(...)\<close> leaves the loop, so
  what the iteration had appended before it is lost with the story. In the table branch
  \<open>if table:\<close> tests the result of \<open>parse_table\<close> against \<open>None\<close>: a \<open>Table\<close> object is
  taken to be truthy.
\<close>

definition step :: "(string \<Rightarrow> bool) \<Rightarrow> string list \<Rightarrow> nat \<Rightarrow> error + (nat \<times> flowable list)" where
  "step accepts lines i =
     (case nth_line lines i of
        Inl e \<Rightarrow> Inl e
      | Inr raw \<Rightarrow>
          (let line = rstrip raw in
           if line = [] then Inr (i + 1, [])
           else if startswith line ''# '' then
             (case new_paragraph accepts (format_inline (drop 2 line)) DocTitle of
                Inl e \<Rightarrow> Inl e
              | Inr p \<Rightarrow> Inr (i + 1, [p]))
           else if startswith line ''## '' then
             (case new_paragraph accepts (format_inline (drop 3 line)) H2 of
                Inl e \<Rightarrow> Inl e
              | Inr p \<Rightarrow> Inr (i + 1, [Spacer 3, HRFlowable 10 ''#cccccc'', p]))
           else if startswith line ''### '' then
             (case new_paragraph accepts (format_inline (drop 4 line)) H3 of
                Inl e \<Rightarrow> Inl e
              | Inr p \<Rightarrow> Inr (i + 1, [p]))
           else if strip line = ''---'' then
             Inr (i + 1, [Spacer 3, HRFlowable 5 ''#dddddd'', Spacer 3])
           else if startswith line fence then
             (case collect_code lines (i + 1) [] of
                Inl e \<Rightarrow> Inl e
              | Inr (j, code_lines) \<Rightarrow>
                  Inr (j + 1, [Preformatted (join [newline] code_lines) CodeBlock]))
           else
             (case table_start lines i line of
                Inl e \<Rightarrow> Inl e
              | Inr True \<Rightarrow>
                  (case collect_table lines i [] of
                     Inl e \<Rightarrow> Inl e
                   | Inr (j, table_lines) \<Rightarrow>
                       (case parse_table accepts table_lines of
                          Inl e \<Rightarrow> Inl e
                        | Inr None \<Rightarrow> Inr (j, [])
                        | Inr (Some table) \<Rightarrow> Inr (j, [Spacer 2, table, Spacer 2])))
              | Inr False \<Rightarrow>
                  if startswith line ''- '' then
                    (case new_paragraph accepts (''&bull; '' @ format_inline (drop 2 line)) BulletItem of
                       Inl e \<Rightarrow> Inl e
                     | Inr p \<Rightarrow> Inr (i + 1, [p]))
                  else
                    (case new_paragraph accepts (format_inline line) BodyText2 of
                       Inl e \<Rightarrow> Inl e
                     | Inr p \<Rightarrow> Inr (i + 1, [p])))))"

text \<open>
  The recursive equations of the loops are unfolded by hand in the proofs below, not by the
  simplifier.
\<close>

declare replace.simps [simp del] sub_span.simps [simp del] sub_font.simps [simp del]
  collect_code.simps [simp del] collect_table.simps [simp del]

text \<open>Both inner loops in closed form: they never fail, and they stop at the first line
  that ends the run, or at the end of the input.\<close>

lemma collect_code_eq:
  "collect_code lines i acc =
     Inr (i + length (takeWhile (\<lambda>l. \<not> startswith (strip l) fence) (drop i lines)),
          acc @ map rstrip (takeWhile (\<lambda>l. \<not> startswith (strip l) fence) (drop i lines)))"
proof (induction lines i acc rule: collect_code.induct)
  case (1 lines i code_lines)
  show ?case
  proof (cases "i < length lines")
    case False
    then show ?thesis by (simp add: collect_code.simps [of lines i code_lines])
  next
    case True
    then have d: "drop i lines = lines ! i # drop (Suc i) lines"
      by (simp add: Cons_nth_drop_Suc)
    show ?thesis
    proof (cases "startswith (strip (lines ! i)) fence")
      case True
      with \<open>i < length lines\<close> show ?thesis
        by (simp add: collect_code.simps [of lines i code_lines] nth_line_def d)
    next
      case False
      with \<open>i < length lines\<close> have
        "collect_code lines i code_lines =
           collect_code lines (i + 1) (code_lines @ [rstrip (lines ! i)])"
        by (simp add: collect_code.simps [of lines i code_lines] nth_line_def)
      also have "\<dots> =
         Inr (i + 1 + length (takeWhile (\<lambda>l. \<not> startswith (strip l) fence) (drop (i + 1) lines)),
              (code_lines @ [rstrip (lines ! i)]) @
              map rstrip (takeWhile (\<lambda>l. \<not> startswith (strip l) fence) (drop (i + 1) lines)))"
        using "1.IH" [of "lines ! i"] \<open>i < length lines\<close> False
        by (simp add: nth_line_def)
      finally show ?thesis using False by (simp add: d)
    qed
  qed
qed

lemma collect_table_eq:
  "collect_table lines i acc =
     Inr (i + length (takeWhile (\<lambda>l. contains l ''|'') (drop i lines)),
          acc @ map rstrip (takeWhile (\<lambda>l. contains l ''|'') (drop i lines)))"
proof (induction lines i acc rule: collect_table.induct)
  case (1 lines i table_lines)
  show ?case
  proof (cases "i < length lines")
    case False
    then show ?thesis by (simp add: collect_table.simps [of lines i table_lines])
  next
    case True
    then have d: "drop i lines = lines ! i # drop (Suc i) lines"
      by (simp add: Cons_nth_drop_Suc)
    show ?thesis
    proof (cases "contains (lines ! i) ''|''")
      case False
      with \<open>i < length lines\<close> show ?thesis
        by (simp add: collect_table.simps [of lines i table_lines] nth_line_def d)
    next
      case True
      with \<open>i < length lines\<close> have
        "collect_table lines i table_lines =
           collect_table lines (i + 1) (table_lines @ [rstrip (lines ! i)])"
        by (simp add: collect_table.simps [of lines i table_lines] nth_line_def)
      also have "\<dots> =
         Inr (i + 1 + length (takeWhile (\<lambda>l. contains l ''|'') (drop (i + 1) lines)),
              (table_lines @ [rstrip (lines ! i)]) @
              map rstrip (takeWhile (\<lambda>l. contains l ''|'') (drop (i + 1) lines)))"
        using "1.IH" [of "lines ! i"] \<open>i < length lines\<close> True
        by (simp add: nth_line_def)
      finally show ?thesis using True by (simp add: d)
    qed
  qed
qed

lemma contains_char: "contains s [c] \<longleftrightarrow> c \<in> set s"
  by (induction s) (auto simp: startswith_def)

lemma set_rstrip: "set (rstrip s) \<subseteq> set s"
  by (auto simp: rstrip_def dest: set_dropWhileD)

lemma contains_rstrip_char: "contains (rstrip s) [c] \<Longrightarrow> contains s [c]"
  using set_rstrip [of s] by (auto simp: contains_char)

lemma step_advances:
  assumes "i < length lines" and "step accepts lines i = Inr (i', new)"
  shows "i < i'"
proof -
  let ?line = "rstrip (lines ! i)"
  show ?thesis
  proof (cases "table_start lines i ?line = Inr True")
    case True
    then have "contains ?line ''|''"
      by (auto simp: table_start_def split: if_splits sum.splits)
    then have "contains (lines ! i) ''|''" by (rule contains_rstrip_char)
    then have "takeWhile (\<lambda>l. contains l ''|'') (drop i lines) \<noteq> []"
      using assms(1) by (simp add: Cons_nth_drop_Suc [symmetric])
    then show ?thesis
      using assms
      by (auto simp: step_def nth_line_def Let_def collect_code_eq collect_table_eq
               split: if_splits sum.splits option.splits bool.splits)
  next
    case False
    then show ?thesis
      using assms
      by (auto simp: step_def nth_line_def Let_def collect_code_eq collect_table_eq
               split: if_splits sum.splits option.splits bool.splits)
  qed
qed

lemma step_measure:
  assumes "i < length lines" and "step accepts lines i = Inr (i', new)"
  shows "length lines - i' < length lines - i"
  using step_advances [OF assms] assms(1) by arith

text \<open>
  The main loop, \<^verbatim>\<open>while i < len(lines): ...\<close>, over the cursor and \<open>story\<close>. An
  exception ends it.
\<close>

function scan_loop :: "(string \<Rightarrow> bool) \<Rightarrow> string list \<Rightarrow> nat \<Rightarrow> flowable list \<Rightarrow> error + flowable list" where
  "scan_loop accepts lines i story =
     (if i < length lines then
        (case step accepts lines i of
           Inl e \<Rightarrow> Inl e
         | Inr (i', new) \<Rightarrow> scan_loop accepts lines i' (story @ new))
      else Inr story)"
  by pat_completeness auto
termination
  by (relation "measure (\<lambda>(accepts, lines, i, story). length lines - i)")
     (auto intro: step_measure)

text \<open>
  The scanning part of \<open>parse_markdown_to_pdf\<close>, from \<open>story = []\<close> and \<open>i = 0\<close> to the
  end of the loop, on the list that \<open>readlines()\<close> returned. The result is the \<open>story\<close>
  that goes to \<open>doc.build\<close>.
\<close>

definition scan :: "(string \<Rightarrow> bool) \<Rightarrow> string list \<Rightarrow> error + flowable list" where
  "scan accepts lines = scan_loop accepts lines 0 []"

text \<open>
  The same loop, recording for every iteration the cursor before it, the cursor after it
  and the flowables it appended.
\<close>

function iterations :: "(string \<Rightarrow> bool) \<Rightarrow> string list \<Rightarrow> nat \<Rightarrow> error + (nat \<times> nat \<times> flowable list) list" where
  "iterations accepts lines i =
     (if i < length lines then
        (case step accepts lines i of
           Inl e \<Rightarrow> Inl e
         | Inr (i', new) \<Rightarrow>
             (case iterations accepts lines i' of
                Inl e \<Rightarrow> Inl e
              | Inr tr \<Rightarrow> Inr ((i, i', new) # tr)))
      else Inr [])"
  by pat_completeness auto
termination
  by (relation "measure (\<lambda>(accepts, lines, i). length lines - i)")
     (auto intro: step_measure)

declare scan_loop.simps [simp del] iterations.simps [simp del]

text \<open>
  \<open>chained i tr\<close>: the recorded iterations start at \<open>i\<close>, each one ends behind its start,
  and each one starts where the one before it ended.
\<close>

fun chained :: "nat \<Rightarrow> (nat \<times> nat \<times> 'a) list \<Rightarrow> bool" where
  "chained i [] = True"
| "chained i ((s, e, new) # tr) = (s = i \<and> s < e \<and> chained e tr)"

text \<open>
  \<open>reaches_table_rule line\<close>: none of the branches that the loop tries before the table
  branch takes the trimmed line (blank, the three headings, the rule, the fence).
\<close>

definition reaches_table_rule :: "string \<Rightarrow> bool" where
  "reaches_table_rule line \<longleftrightarrow>
     line \<noteq> [] \<and> \<not> startswith line ''# '' \<and> \<not> startswith line ''## '' \<and>
     \<not> startswith line ''### '' \<and> strip line \<noteq> ''---'' \<and> \<not> startswith line fence"



text \<open>
  \<open>fence_body lines i\<close>: the lines strictly between an opening fence at index \<open>i\<close> and
  the closing fence, which is the first later line whose trimmed form starts with the
  fence; all the later lines when there is none.
\<close>

definition fence_body :: "string list \<Rightarrow> nat \<Rightarrow> string list" where
  "fence_body lines i = takeWhile (\<lambda>l. \<not> startswith (strip l) fence) (drop (i + 1) lines)"















section \<open>The loop and its record of iterations\<close>

lemma scan_loop_iterations:
  "scan_loop accepts lines i story =
     (case iterations accepts lines i of
        Inl e \<Rightarrow> Inl e
      | Inr tr \<Rightarrow> Inr (story @ concat (map (\<lambda>(s, e, new). new) tr)))"
proof (induction accepts lines i story rule: scan_loop.induct)
  case (1 accepts lines i story)
  show ?case
  proof (cases "i < length lines")
    case False
    then show ?thesis
      by (simp add: scan_loop.simps [of accepts lines i story] iterations.simps [of accepts lines i])
  next
    case True
    show ?thesis
    proof (cases "step accepts lines i")
      case (Inl e)
      with True show ?thesis
        by (simp add: scan_loop.simps [of accepts lines i story] iterations.simps [of accepts lines i])
    next
      case (Inr p)
      obtain i' new where p: "p = (i', new)" by (cases p)
      have "scan_loop accepts lines i story = scan_loop accepts lines i' (story @ new)"
        using True Inr p by (simp add: scan_loop.simps [of accepts lines i story])
      also have "\<dots> =
        (case iterations accepts lines i' of
           Inl e \<Rightarrow> Inl e
         | Inr tr \<Rightarrow> Inr ((story @ new) @ concat (map (\<lambda>(s, e, new). new) tr)))"
        using "1.IH" [OF True Inr [unfolded p] refl] .
      finally show ?thesis
        using True Inr p
        by (simp add: iterations.simps [of accepts lines i] split: sum.splits)
    qed
  qed
qed

lemma iterations_props:
  "iterations accepts lines i = Inr tr \<Longrightarrow>
     chained i tr \<and> length tr \<le> length lines - i \<and>
     list_all (\<lambda>(s, e, new). s < length lines \<and> step accepts lines s = Inr (e, new)) tr"
proof (induction accepts lines i arbitrary: tr rule: iterations.induct)
  case (1 accepts lines i)
  show ?case
  proof (cases "i < length lines")
    case False
    with "1.prems" show ?thesis by (simp add: iterations.simps [of accepts lines i])
  next
    case True
    from "1.prems" True obtain i' new tr' where
      st: "step accepts lines i = Inr (i', new)" and it: "iterations accepts lines i' = Inr tr'"
      and tr: "tr = (i, i', new) # tr'"
      by (auto simp: iterations.simps [of accepts lines i] split: sum.splits)
    have adv: "i < i'" using True st by (rule step_advances)
    have ih: "chained i' tr' \<and> length tr' \<le> length lines - i' \<and>
      list_all (\<lambda>(s, e, new). s < length lines \<and> step accepts lines s = Inr (e, new)) tr'"
      using "1.IH" [OF True st refl it] .
    show ?thesis using ih adv True st by (auto simp: tr)
  qed
qed

section \<open>What one iteration does, branch by branch\<close>

lemma startswith_Nil [simp]: "startswith s []"
  by (simp add: startswith_def)

lemma startswith_Cons:
  "startswith s (p # ps) \<longleftrightarrow> (\<exists>cs. s = p # cs \<and> startswith cs ps)"
  by (cases s) (auto simp: startswith_def)

lemma rstrip_Cons_nonspace: "\<not> isspace c \<Longrightarrow> rstrip (c # cs) = c # rstrip cs"
  by (simp add: rstrip_def dropWhile_append3)

lemma strip_Cons_nonspace: "\<not> isspace c \<Longrightarrow> strip (c # cs) = c # rstrip cs"
  by (simp add: strip_def lstrip_def rstrip_Cons_nonspace)







lemma fence_line_not_earlier:
  assumes "startswith line fence"
  shows "line \<noteq> [] \<and> \<not> startswith line ''# '' \<and> \<not> startswith line ''## '' \<and>
     \<not> startswith line ''### '' \<and> strip line \<noteq> ''---''"
proof -
  from assms obtain r where l: "line = CHR ''`'' # r"
    by (auto simp: fence_def startswith_Cons)
  have ns: "\<not> isspace (CHR ''`'')" by (simp add: isspace_def)
  have "strip line \<noteq> ''---''" unfolding l by (simp add: strip_Cons_nonspace [OF ns])
  then show ?thesis by (simp add: l startswith_def)
qed


lemma step_after_table_rule:
  assumes "i < length lines" and "reaches_table_rule (rstrip (lines ! i))"
    and "table_start lines i (rstrip (lines ! i)) = Inr False"
  shows "step accepts lines i =
     (if startswith (rstrip (lines ! i)) ''- '' then
        (if accepts (''&bull; '' @ format_inline (drop 2 (rstrip (lines ! i))))
         then Inr (i + 1,
                [Paragraph (''&bull; '' @ format_inline (drop 2 (rstrip (lines ! i)))) BulletItem])
         else Inl ValueError)
      else
        (if accepts (format_inline (rstrip (lines ! i)))
         then Inr (i + 1, [Paragraph (format_inline (rstrip (lines ! i))) BodyText2])
         else Inl ValueError))"
  using assms
  by (simp add: step_def nth_line_def Let_def reaches_table_rule_def new_paragraph_def)

lemma step_table_rule:
  assumes "i < length lines" and "reaches_table_rule (rstrip (lines ! i))"
    and "table_start lines i (rstrip (lines ! i)) = Inr True"
  shows "step accepts lines i =
     (case parse_table accepts (map rstrip (takeWhile (\<lambda>l. contains l ''|'') (drop i lines))) of
        Inl e \<Rightarrow> Inl e
      | Inr None \<Rightarrow> Inr (i + length (takeWhile (\<lambda>l. contains l ''|'') (drop i lines)), [])
      | Inr (Some table) \<Rightarrow>
          Inr (i + length (takeWhile (\<lambda>l. contains l ''|'') (drop i lines)),
               [Spacer 2, table, Spacer 2]))"
  using assms
  by (simp add: step_def nth_line_def Let_def reaches_table_rule_def collect_table_eq)

lemma step_fence:
  assumes "i < length lines" and "startswith (rstrip (lines ! i)) fence"
  shows "step accepts lines i =
     Inr (i + 1 + length (takeWhile (\<lambda>l. \<not> startswith (strip l) fence) (drop (i + 1) lines)) + 1,
          [Preformatted
             (join [newline]
                (map rstrip (takeWhile (\<lambda>l. \<not> startswith (strip l) fence) (drop (i + 1) lines))))
             CodeBlock])"
  using assms fence_line_not_earlier [OF assms(2)]
  by (simp add: step_def nth_line_def Let_def collect_code_eq)

lemma map_result_header_cell:
  "map_result (header_cell accepts) cs =
     (if list_all (cell_accepted accepts) cs then Inr (map header_paragraph cs)
      else Inl ValueError)"
  by (induction cs)
     (auto simp: header_cell_def new_paragraph_def cell_accepted_def header_paragraph_def)

lemma map_result_data_cell:
  "map_result (data_cell accepts) cs =
     (if list_all (cell_accepted accepts) cs then Inr (map data_paragraph cs)
      else Inl ValueError)"
  by (induction cs)
     (auto simp: data_cell_def new_paragraph_def cell_accepted_def data_paragraph_def)

lemma map_result_data_rows:
  "map_result (map_result (data_cell accepts)) rows =
     (if list_all (list_all (cell_accepted accepts)) rows
      then Inr (map (map data_paragraph) rows)
      else Inl ValueError)"
  by (induction rows) (auto simp: map_result_data_cell)

lemma parse_table_eq:
  "parse_table accepts ls =
     (if length ls < 3 then Inr None
      else if \<not> list_all (cell_accepted accepts) (row_cells (ls ! 0)) then Inl ValueError
      else if \<not> list_all (list_all (cell_accepted accepts)) (map row_cells (drop 2 ls))
        then Inl ValueError
      else if row_cells (ls ! 0) = [] then Inl ZeroDivisionError
      else Inr (Some (Table (map header_paragraph (row_cells (ls ! 0)) #
                             map (map data_paragraph) (map row_cells (drop 2 ls)))
                            (length (row_cells (ls ! 0))))))"
  by (simp add: parse_table_def Let_def map_result_header_cell map_result_data_rows)


lemma table_start_cases:
  "table_start lines i line = Inr True \<or> table_start lines i line = Inr False"
  by (auto simp: table_start_def nth_line_def)



lemma scan_loop_unfold:
  "i < length lines \<Longrightarrow> step accepts lines i = Inr (j, new) \<Longrightarrow>
   scan_loop accepts lines i story = scan_loop accepts lines j (story @ new)"
  by (simp add: scan_loop.simps [of accepts lines i story])



section \<open>Splitting and joining\<close>

lemma split_no_sep: "sep \<notin> set f \<Longrightarrow> split f sep = [f]"
  by (induction f) auto

lemma split_append_sep:
  "sep \<notin> set f \<Longrightarrow> split (f @ sep # rest) sep = f # split rest sep"
  by (induction f) auto

lemma split_join:
  "fs \<noteq> [] \<Longrightarrow> list_all (\<lambda>f. sep \<notin> set f) fs \<Longrightarrow> split (join [sep] fs) sep = fs"
proof (induction "[sep]" fs rule: join.induct)
  case 1
  then show ?case by simp
next
  case (2 x)
  then show ?case by (simp add: split_no_sep)
next
  case (3 x y ys)
  then show ?case by (simp add: split_append_sep)
qed

lemma join_snoc: "xs \<noteq> [] \<Longrightarrow> join sep (xs @ [y]) = join sep xs @ sep @ y"
  by (induction sep xs rule: join.induct) auto

lemma length_split: "length (split s sep) = count_list s sep + 1"
  by (induction s) (auto split: list.splits)

lemma length_row_cells: "length (row_cells line) = count_list line (CHR ''|'') - 1"
  by (simp add: row_cells_def slice_1_m1_def length_split)

section \<open>What a span pattern matches\<close>

lemma startswith_append_self [simp]: "startswith (d @ r) d"
  by (simp add: startswith_def)

lemma startswith_append_decomp: "startswith s d \<Longrightarrow> s = d @ drop (length d) s"
  by (metis append_take_drop_id startswith_def)

lemma find_close_sound:
  "find_close d body s = Some (g, r) \<Longrightarrow>
     \<exists>m. g = body @ m \<and> s = m @ d @ r \<and> newline \<notin> set m \<and>
         (\<forall>k < length m. \<not> startswith (drop k s) d)"
proof (induction s arbitrary: body)
  case Nil
  then show ?case by (auto simp: startswith_def split: if_splits)
next
  case (Cons c cs)
  show ?case
  proof (cases "startswith (c # cs) d")
    case True
    with Cons.prems have "g = body" "r = drop (length d) (c # cs)" by auto
    moreover have "c # cs = d @ drop (length d) (c # cs)"
      using True by (rule startswith_append_decomp)
    ultimately show ?thesis by auto
  next
    case False
    with Cons.prems have nl: "c \<noteq> newline"
      and fc: "find_close d (body @ [c]) cs = Some (g, r)"
      by (auto split: if_splits)
    from Cons.IH [OF fc] obtain m where
      m: "g = (body @ [c]) @ m" "cs = m @ d @ r" "newline \<notin> set m"
        "\<forall>k < length m. \<not> startswith (drop k cs) d"
      by blast
    have "\<forall>k < length (c # m). \<not> startswith (drop k (c # cs)) d"
    proof (intro allI impI)
      fix k assume k: "k < length (c # m)"
      show "\<not> startswith (drop k (c # cs)) d"
      proof (cases k)
        case 0
        with False show ?thesis by simp
      next
        case (Suc k')
        with k m(4) show ?thesis by simp
      qed
    qed
    with m nl show ?thesis
      by (intro exI [of _ "c # m"]) simp
  qed
qed

lemma find_close_complete:
  "newline \<notin> set m \<Longrightarrow> (\<forall>k < length m. \<not> startswith (drop k (m @ d @ r)) d) \<Longrightarrow>
   find_close d body (m @ d @ r) = Some (body @ m, r)"
proof (induction m arbitrary: body)
  case Nil
  show ?case
  proof (cases "d @ r")
    case Nil
    then show ?thesis by simp
  next
    case (Cons x xs)
    have "startswith (x # xs) d" unfolding Cons [symmetric] by (rule startswith_append_self)
    then have "find_close d body (x # xs) = Some (body, drop (length d) (x # xs))" by simp
    then have "find_close d body (d @ r) = Some (body, drop (length d) (d @ r))"
      unfolding Cons [symmetric] .
    then show ?thesis by simp
  qed
next
  case (Cons c m)
  have "0 < length (c # m)" by simp
  with Cons.prems(2) have "\<not> startswith (drop 0 ((c # m) @ d @ r)) d" by blast
  then have 0: "\<not> startswith (c # m @ d @ r) d" by simp
  have rest: "\<forall>k < length m. \<not> startswith (drop k (m @ d @ r)) d"
  proof (intro allI impI)
    fix k assume "k < length m"
    then have "Suc k < length (c # m)" by simp
    with Cons.prems(2) have "\<not> startswith (drop (Suc k) ((c # m) @ d @ r)) d" by blast
    then show "\<not> startswith (drop k (m @ d @ r)) d" by simp
  qed
  from Cons.prems(1) have nl: "c \<noteq> newline" "newline \<notin> set m" by auto
  show ?case using 0 nl Cons.IH [OF nl(2) rest, of "body @ [c]"] by simp
qed

lemma match_span_iff:
  "match_span d s = Some (g, r) \<longleftrightarrow>
     g \<noteq> [] \<and> s = d @ g @ d @ r \<and> newline \<notin> set g \<and>
     (\<forall>k. 1 \<le> k \<and> k < length g \<longrightarrow> \<not> startswith (drop k (g @ d @ r)) d)"
proof
  assume "match_span d s = Some (g, r)"
  then obtain c cs where sw: "startswith s d" and dr: "drop (length d) s = c # cs"
    and nl: "c \<noteq> newline" and fc: "find_close d [c] cs = Some (g, r)"
    by (auto simp: match_span_def split: if_splits list.splits)
  from find_close_sound [OF fc] obtain m where
    m: "g = [c] @ m" "cs = m @ d @ r" "newline \<notin> set m"
       "\<forall>k < length m. \<not> startswith (drop k cs) d"
    by blast
  have s: "s = d @ g @ d @ r"
    using startswith_append_decomp [OF sw] dr m(1,2) by simp
  have "\<forall>k. 1 \<le> k \<and> k < length g \<longrightarrow> \<not> startswith (drop k (g @ d @ r)) d"
  proof (intro allI impI)
    fix k assume k: "1 \<le> k \<and> k < length g"
    then obtain k' where k': "k = Suc k'" by (cases k) auto
    with k m(1) have "k' < length m" by simp
    with m(4) have "\<not> startswith (drop k' cs) d" by blast
    then show "\<not> startswith (drop k (g @ d @ r)) d"
      by (simp add: k' m(1,2))
  qed
  with s m nl show "g \<noteq> [] \<and> s = d @ g @ d @ r \<and> newline \<notin> set g \<and>
     (\<forall>k. 1 \<le> k \<and> k < length g \<longrightarrow> \<not> startswith (drop k (g @ d @ r)) d)"
    by simp
next
  assume a: "g \<noteq> [] \<and> s = d @ g @ d @ r \<and> newline \<notin> set g \<and>
     (\<forall>k. 1 \<le> k \<and> k < length g \<longrightarrow> \<not> startswith (drop k (g @ d @ r)) d)"
  then obtain c m where g: "g = c # m" by (cases g) auto
  from a g have nl: "c \<noteq> newline" "newline \<notin> set m" by auto
  have "\<forall>k < length m. \<not> startswith (drop k (m @ d @ r)) d"
  proof (intro allI impI)
    fix k assume "k < length m"
    then have "1 \<le> Suc k \<and> Suc k < length g" by (simp add: g)
    with a have "\<not> startswith (drop (Suc k) (g @ d @ r)) d" by blast
    then show "\<not> startswith (drop k (m @ d @ r)) d" by (simp add: g)
  qed
  from find_close_complete [OF nl(2) this, of "[c]"]
  have "find_close d [c] (m @ d @ r) = Some (g, r)" by (simp add: g)
  moreover from a have "s = d @ c # m @ d @ r" by (simp add: g)
  ultimately show "match_span d s = Some (g, r)"
    using nl(1) by (simp add: match_span_def)
qed

lemma sub_span_short:
  "d \<noteq> [] \<Longrightarrow> length s \<le> 2 * length d \<Longrightarrow> sub_span d opn cls s = s"
proof (induction s)
  case Nil
  show ?case by (simp add: sub_span.simps [of d opn cls "[]"])
next
  case (Cons c cs)
  have "match_span d (c # cs) = None"
  proof (cases "match_span d (c # cs)")
    case None
    then show ?thesis .
  next
    case (Some p)
    obtain g r where "p = (g, r)" by (cases p)
    with Some have g: "g \<noteq> []" and e: "c # cs = d @ g @ d @ r"
      by (simp_all add: match_span_iff)
    have "length (c # cs) = length (d @ g @ d @ r)" by (simp only: e)
    moreover have "0 < length g" using g by simp
    ultimately have "2 * length d < length (c # cs)" by simp
    with Cons.prems(2) show ?thesis by simp
  qed
  then show ?case
    using Cons by (simp add: sub_span.simps [of d opn cls "c # cs"])
qed

section \<open>Angle brackets through the escape and the un-escape\<close>

lemma replace_Nil [simp]: "old \<noteq> [] \<Longrightarrow> replace [] old new = []"
  by (simp add: replace.simps [of "[]" old new])















lemma sub_font_Nil [simp]: "sub_font [] = []"
  by (simp add: sub_font.simps [of "[]"])

lemma sub_font_skip: "match_font (c # cs) = None \<Longrightarrow> sub_font (c # cs) = c # sub_font cs"
  by (simp add: sub_font.simps [of "c # cs"])

lemma sub_font_amp_skip: "c \<noteq> CHR ''&'' \<Longrightarrow> sub_font (c # cs) = c # sub_font cs"
  by (rule sub_font_skip) (simp add: match_font_def startswith_Cons)





section \<open>The escape and the un-escape on lists of pieces\<close>








lemma startswith_Cons_Cons [simp]:
  "startswith (c # cs) (p # ps) \<longleftrightarrow> c = p \<and> startswith cs ps"
  by (auto simp: startswith_def)

lemma startswith_Nil_Cons [simp]: "\<not> startswith [] (p # ps)"
  by (simp add: startswith_def)


lemma sub_font_amp_free: "CHR ''&'' \<notin> set a \<Longrightarrow> sub_font (a @ y) = a @ sub_font y"
  by (induction a) (simp_all add: sub_font_amp_skip [OF not_sym])




















section \<open>Results that do not depend on the acceptor\<close>


text \<open>A result that one acceptor allows is the result under every acceptor that accepts
  at least as much.\<close>

lemma parse_table_mono:
  assumes "parse_table accepts ls = Inr r" and "\<And>t. accepts t \<Longrightarrow> accepts' t"
  shows "parse_table accepts' ls = Inr r"
proof -
  have m: "list_all (cell_accepted accepts) cs \<Longrightarrow> list_all (cell_accepted accepts') cs" for cs
    using assms(2) by (auto simp: list_all_iff cell_accepted_def)
  have mm: "list_all (list_all (cell_accepted accepts)) rows \<Longrightarrow>
            list_all (list_all (cell_accepted accepts')) rows" for rows
    using m by (auto simp: list_all_iff)
  show ?thesis
    using assms(1) m [of "row_cells (ls ! 0)"] mm [of "map row_cells (drop 2 ls)"]
    by (auto simp: parse_table_eq split: if_splits)
qed

lemma step_mono:
  assumes "step accepts lines i = Inr r" and "\<And>t. accepts t \<Longrightarrow> accepts' t"
    and i: "i < length lines"
  shows "step accepts' lines i = Inr r"
proof -
  let ?line = "rstrip (lines ! i)"
  consider (early) "\<not> reaches_table_rule ?line"
    | (table) "reaches_table_rule ?line" "table_start lines i ?line = Inr True"
    | (late) "reaches_table_rule ?line" "table_start lines i ?line = Inr False"
    using table_start_cases by blast
  then show ?thesis
  proof cases
    case early
    then show ?thesis
      using assms
      by (auto simp: step_def nth_line_def Let_def reaches_table_rule_def collect_code_eq
            new_paragraph_def split: if_splits)
  next
    case table
    show ?thesis
    proof (cases "parse_table accepts (map rstrip (takeWhile (\<lambda>l. contains l ''|'') (drop i lines)))")
      case (Inl e)
      with assms(1) show ?thesis by (simp add: step_table_rule [OF i table])
    next
      case (Inr t)
      from parse_table_mono [OF Inr assms(2)] Inr assms(1) show ?thesis
        by (simp add: step_table_rule [OF i table])
    qed
  next
    case late
    show ?thesis
      using assms(1,2) by (auto simp: step_after_table_rule [OF i late] split: if_splits)
  qed
qed

lemma scan_loop_mono:
  assumes mono: "\<And>t. accepts t \<Longrightarrow> accepts' t"
  shows "scan_loop accepts lines i story = Inr out \<Longrightarrow> scan_loop accepts' lines i story = Inr out"
proof (induction "length lines - i" arbitrary: i story rule: less_induct)
  case less
  show ?case
  proof (cases "i < length lines")
    case False
    with less.prems show ?thesis by (simp add: scan_loop.simps [of _ lines i])
  next
    case True
    show ?thesis
    proof (cases "step accepts lines i")
      case (Inl e)
      with less.prems True show ?thesis by (simp add: scan_loop.simps [of accepts lines i])
    next
      case (Inr r)
      obtain j new where r: "r = (j, new)" by (cases r)
      have s: "step accepts lines i = Inr (j, new)" using Inr r by simp
      have s': "step accepts' lines i = Inr (j, new)" by (rule step_mono [OF s mono True])
      have lt: "length lines - j < length lines - i" by (rule step_measure [OF True s])
      have "scan_loop accepts lines j (story @ new) = Inr out"
        using less.prems True s by (simp add: scan_loop.simps [of accepts lines i])
      from less.hyps [OF lt this] show ?thesis
        using True s' by (simp add: scan_loop.simps [of accepts' lines i])
    qed
  qed
qed

lemma scan_mono:
  "scan accepts lines = Inr out \<Longrightarrow> (\<And>t. accepts t \<Longrightarrow> accepts' t) \<Longrightarrow>
   scan accepts' lines = Inr out"
  unfolding scan_def by (rule scan_loop_mono)

section \<open>The claims\<close>

text \<open>
  The statements below hold for every acceptor \<open>accepts\<close>. Where a statement is
  evaluated on a concrete input, the acceptor is \<open>accepts_only texts\<close>, which accepts the
  listed texts and no other; by \<open>scan_mono\<close> and \<open>step_mono\<close> a result that it allows is
  the result under every acceptor that accepts these texts. The texts listed are plain
  text, entities and balanced tags.
\<close>

text \<open>
  C1. The claim: the scanner is total; no input text makes the scan raise, not even a table
  whose header row yields no cell after the split on \<open>|\<close> and the drop of the first and
  the last field.

  The code does not do this. A table whose header line holds exactly one \<open>|\<close> has two
  fields, both dropped by the slice, so \<open>num_cols\<close> is 0 and the division
  \<open>available_width / num_cols\<close> in \<open>parse_table\<close> raises \<open>ZeroDivisionError\<close>. The theorem
  evaluates the scan on such a table of three lines. No row of it has a cell, so no
  \<open>Paragraph\<close> is built before the division and the result is the same whatever markup
  \<open>Paragraph\<close> accepts.
\<close>

theorem single_pipe_header_raises:
  "scan accepts [''a | b\<newline>'', ''---|---\<newline>'', ''c | d\<newline>''] = Inl ZeroDivisionError"
  by code_simp

text \<open>
  C2, as the claim states it: only the empty first and last fields of a fully piped line
  are discarded, and the non-empty edge fields of a line such as \<open>a | b | c\<close> are kept.
  The slice \<open>[1:-1]\<close> drops the first and the last field whatever they hold: of
  \<open>a | b | c\<close> only the cell \<open>b\<close> is left, and the table of that header has one column
  (here with a \<open>Paragraph\<close> that accepts the two texts \<open>b\<close> and \<open>2\<close>, which hold no markup).
\<close>

theorem nonempty_edge_fields_dropped:
  "row_cells ''a | b | c'' = [''b''] \<and>
   scan (accepts_only [''b'', ''2''])
        [''a | b | c\<newline>'', ''---|---|---\<newline>'', ''1 | 2 | 3\<newline>''] =
     Inr [Spacer 2,
          Table [[Paragraph ''b'' TableHeader], [Paragraph ''2'' TableCell]] 1,
          Spacer 2]"
  by code_simp

text \<open>
  C2, amended. The cells of a row are the fields of the line split on \<open>|\<close>, without the
  first and the last field (dropped whether they are empty or not), each trimmed. For a
  fully piped line \<open>|c1|...|cn|\<close> these are the \<open>n\<close> fields between the pipes, trimmed.
  A row has one cell fewer than its line has \<open>|\<close> characters. For a table of at least
  three lines whose header line holds at least two \<open>|\<close> and whose cells, inline-formatted,
  are all markup that \<open>Paragraph\<close> accepts, \<open>parse_table\<close> yields the table of the header
  cells of line 0 and the cells of every line from index 2 on (line 1, the separator, is
  skipped), so the number of data rows is the number of lines less two. When a cell of
  line 0 or of a line from index 2 on is not accepted, \<open>parse_table\<close> raises \<open>ValueError\<close>
  and yields no table.
\<close>

theorem table_cells_drop_edge_fields:
  "(fs \<noteq> [] \<and> list_all (\<lambda>f. CHR ''|'' \<notin> set f) fs \<longrightarrow>
      row_cells (join ''|'' fs) = map strip (butlast (tl fs))) \<and>
   (cells \<noteq> [] \<and> list_all (\<lambda>f. CHR ''|'' \<notin> set f) cells \<longrightarrow>
      row_cells (''|'' @ join ''|'' cells @ ''|'') = map strip cells) \<and>
   length (row_cells line) = count_list line (CHR ''|'') - 1 \<and>
   (3 \<le> length table_lines \<and> 2 \<le> count_list (table_lines ! 0) (CHR ''|'') \<and>
    list_all (cell_accepted accepts) (row_cells (table_lines ! 0)) \<and>
    list_all (list_all (cell_accepted accepts)) (map row_cells (drop 2 table_lines)) \<longrightarrow>
      parse_table accepts table_lines =
        Inr (Some (Table (map header_paragraph (row_cells (table_lines ! 0)) #
                          map (map data_paragraph) (map row_cells (drop 2 table_lines)))
                         (count_list (table_lines ! 0) (CHR ''|'') - 1))) \<and>
      length (map (map data_paragraph) (map row_cells (drop 2 table_lines))) =
        length table_lines - 2) \<and>
   (3 \<le> length table_lines \<and>
    \<not> (list_all (cell_accepted accepts) (row_cells (table_lines ! 0)) \<and>
       list_all (list_all (cell_accepted accepts)) (map row_cells (drop 2 table_lines))) \<longrightarrow>
      parse_table accepts table_lines = Inl ValueError)"
proof (intro conjI impI)
  assume "fs \<noteq> [] \<and> list_all (\<lambda>f. CHR ''|'' \<notin> set f) fs"
  then show "row_cells (join ''|'' fs) = map strip (butlast (tl fs))"
    by (simp add: row_cells_def slice_1_m1_def split_join)
next
  assume c: "cells \<noteq> [] \<and> list_all (\<lambda>f. CHR ''|'' \<notin> set f) cells"
  then have j1: "join ''|'' (cells @ [[]]) = join ''|'' cells @ ''|''"
    by (simp add: join_snoc)
  have j2: "join ''|'' ([] # cells @ [[]]) = ''|'' @ join ''|'' (cells @ [[]])"
    using c by (cases cells) simp_all
  have j: "''|'' @ join ''|'' cells @ ''|'' = join ''|'' ([] # cells @ [[]])"
    unfolding j2 j1 ..
  have "split (join ''|'' ([] # cells @ [[]])) (CHR ''|'') = [] # cells @ [[]]"
    using c by (intro split_join) simp_all
  then show "row_cells (''|'' @ join ''|'' cells @ ''|'') = map strip cells"
    unfolding j by (simp add: row_cells_def slice_1_m1_def)
next
  show "length (row_cells line) = count_list line (CHR ''|'') - 1"
    by (rule length_row_cells)
next
  assume a: "3 \<le> length table_lines \<and> 2 \<le> count_list (table_lines ! 0) (CHR ''|'') \<and>
    list_all (cell_accepted accepts) (row_cells (table_lines ! 0)) \<and>
    list_all (list_all (cell_accepted accepts)) (map row_cells (drop 2 table_lines))"
  have "0 < count_list (table_lines ! 0) (CHR ''|'') - 1" using a by arith
  then have "0 < length (row_cells (table_lines ! 0))"
    by (simp only: length_row_cells)
  then have "row_cells (table_lines ! 0) \<noteq> []" by simp
  then have "parse_table accepts table_lines =
        Inr (Some (Table (map header_paragraph (row_cells (table_lines ! 0)) #
                          map (map data_paragraph) (map row_cells (drop 2 table_lines)))
                         (length (row_cells (table_lines ! 0)))))"
    using a by (simp add: parse_table_eq)
  then show "parse_table accepts table_lines =
        Inr (Some (Table (map header_paragraph (row_cells (table_lines ! 0)) #
                          map (map data_paragraph) (map row_cells (drop 2 table_lines)))
                         (count_list (table_lines ! 0) (CHR ''|'') - 1)))"
    by (simp only: length_row_cells)
next
  show "length (map (map data_paragraph) (map row_cells (drop 2 table_lines))) =
        length table_lines - 2"
    by simp
next
  assume "3 \<le> length table_lines \<and>
    \<not> (list_all (cell_accepted accepts) (row_cells (table_lines ! 0)) \<and>
       list_all (list_all (cell_accepted accepts)) (map row_cells (drop 2 table_lines)))"
  then show "parse_table accepts table_lines = Inl ValueError"
    by (auto simp: parse_table_eq)
qed

theorem table_cells_drop_edge_fields_witness:
  "row_cells ''| a | b |'' = [''a'', ''b''] \<and>
   row_cells ''x | a | y'' = [''a''] \<and>
   parse_table (accepts_only [''a'', ''b'', ''1'', ''2'', ''3'', ''4''])
               [''| a | b |'', ''|---|---|'', ''| 1 | 2 |'', ''| 3 | 4 |''] =
     Inr (Some (Table [[Paragraph ''a'' TableHeader, Paragraph ''b'' TableHeader],
                       [Paragraph ''1'' TableCell, Paragraph ''2'' TableCell],
                       [Paragraph ''3'' TableCell, Paragraph ''4'' TableCell]] 2)) \<and>
   parse_table (accepts_only [''a'', ''b'', ''1'', ''2'', ''3''])
               [''| a | b |'', ''|---|---|'', ''| 1 | 2 |'', ''| 3 | 4 |''] = Inl ValueError"
proof -
  let ?T = "[''| a | b |'', ''|---|---|'', ''| 1 | 2 |'', ''| 3 | 4 |'']"
  let ?A = "accepts_only [''a'', ''b'', ''1'', ''2'', ''3'', ''4'']"
  let ?B = "accepts_only [''a'', ''b'', ''1'', ''2'', ''3'']"
  have a: "['' a '', '' b ''] \<noteq> [] \<and> list_all (\<lambda>f. CHR ''|'' \<notin> set f) ['' a '', '' b '']"
    by simp
  have b: "[''x '', '' a '', '' y''] \<noteq> [] \<and>
           list_all (\<lambda>f. CHR ''|'' \<notin> set f) [''x '', '' a '', '' y'']"
    by simp
  have c: "3 \<le> length ?T \<and> 2 \<le> count_list (?T ! 0) (CHR ''|'') \<and>
    list_all (cell_accepted ?A) (row_cells (?T ! 0)) \<and>
    list_all (list_all (cell_accepted ?A)) (map row_cells (drop 2 ?T))"
    by code_simp
  have d: "3 \<le> length ?T \<and>
    \<not> (list_all (cell_accepted ?B) (row_cells (?T ! 0)) \<and>
       list_all (list_all (cell_accepted ?B)) (map row_cells (drop 2 ?T)))"
    by code_simp
  have s: "map strip (butlast (tl [''x '', '' a '', '' y''])) = [''a'']"
    "map strip ['' a '', '' b ''] = [''a'', ''b'']"
    "join ''|'' [''x '', '' a '', '' y''] = ''x | a | y''"
    "''|'' @ join ''|'' ['' a '', '' b ''] @ ''|'' = ''| a | b |''"
    by code_simp+
  have 1: "row_cells (''|'' @ join ''|'' ['' a '', '' b ''] @ ''|'') = map strip ['' a '', '' b '']"
    by (rule table_cells_drop_edge_fields [THEN conjunct2, THEN conjunct1, THEN mp, OF a])
  have 2: "row_cells (join ''|'' [''x '', '' a '', '' y'']) =
           map strip (butlast (tl [''x '', '' a '', '' y'']))"
    by (rule table_cells_drop_edge_fields [THEN conjunct1, THEN mp, OF b])
  have 3: "parse_table ?A ?T =
        Inr (Some (Table (map header_paragraph (row_cells (?T ! 0)) #
                          map (map data_paragraph) (map row_cells (drop 2 ?T)))
                         (count_list (?T ! 0) (CHR ''|'') - 1)))"
    by (rule table_cells_drop_edge_fields
          [THEN conjunct2, THEN conjunct2, THEN conjunct2, THEN conjunct1, THEN mp,
           THEN conjunct1, OF c])
  have e: "Inr (Some (Table (map header_paragraph (row_cells (?T ! 0)) #
                          map (map data_paragraph) (map row_cells (drop 2 ?T)))
                         (count_list (?T ! 0) (CHR ''|'') - 1))) =
     (Inr (Some (Table [[Paragraph ''a'' TableHeader, Paragraph ''b'' TableHeader],
                       [Paragraph ''1'' TableCell, Paragraph ''2'' TableCell],
                       [Paragraph ''3'' TableCell, Paragraph ''4'' TableCell]] 2))
        :: error + flowable option)"
    by code_simp
  have 4: "parse_table ?B ?T = Inl ValueError"
    by (rule table_cells_drop_edge_fields
          [THEN conjunct2, THEN conjunct2, THEN conjunct2, THEN conjunct2, THEN mp, OF d])
  from 1 [unfolded s] 2 [unfolded s] 3 [unfolded e] 4 show ?thesis by (intro conjI)
qed




text \<open>
  C4, as the claim states it: the content of a fenced code block is the lines between the
  fences, identical but for the normalisation of the trailing newline. The code strips all
  trailing white space of a code line with \<open>rstrip()\<close>, not only its newline: a code line
  \<open>x\<close> followed by two blanks comes out as \<open>x\<close>.
\<close>

theorem trailing_blanks_of_code_lines_dropped:
  "scan (accepts_only []) [''```\<newline>'', ''x  \<newline>'', ''```\<newline>''] = Inr [Preformatted ''x'' CodeBlock] \<and>
   scan (accepts_only []) [''```\<newline>'', ''x  \<newline>'', ''```\<newline>''] \<noteq> Inr [Preformatted ''x  '' CodeBlock]"
proof -
  have "scan (accepts_only []) [''```\<newline>'', ''x  \<newline>'', ''```\<newline>''] = Inr [Preformatted ''x'' CodeBlock]"
    by code_simp
  then show ?thesis by simp
qed

text \<open>
  C4, amended. For a fence line at index \<open>i\<close> the iteration emits one \<open>Preformatted\<close>
  whose content is the lines strictly between the opening and the closing fence, each with
  its trailing white space stripped (the newline and any blanks or tabs before it), joined
  by newlines, with no inline formatting. The lines between the fences are the longest run
  of lines after the opening fence whose trimmed form does not start with the fence: the
  line behind the run is the closing fence, and when there is none the run reaches the end
  of the input, without an error. The cursor moves behind the closing fence. No
  \<open>Paragraph\<close> is built, so the result does not depend on the markup that \<open>Paragraph\<close>
  accepts.
\<close>

theorem fenced_code_block_content:
  assumes "i < length lines" and "startswith (rstrip (lines ! i)) fence"
  shows "step accepts lines i =
           Inr (i + length (fence_body lines i) + 2,
                [Preformatted (join [newline] (map rstrip (fence_body lines i))) CodeBlock]) \<and>
         fence_body lines i = take (length (fence_body lines i)) (drop (i + 1) lines) \<and>
         list_all (\<lambda>l. \<not> startswith (strip l) fence) (fence_body lines i) \<and>
         (if i + 1 + length (fence_body lines i) < length lines
          then startswith (strip (lines ! (i + 1 + length (fence_body lines i)))) fence
          else fence_body lines i = drop (i + 1) lines)"
proof -
  let ?P = "\<lambda>l. \<not> startswith (strip l) fence"
  let ?b = "fence_body lines i"
  have b: "?b = takeWhile ?P (drop (i + 1) lines)" by (simp add: fence_body_def)
  have 1: "step accepts lines i =
           Inr (i + length ?b + 2, [Preformatted (join [newline] (map rstrip ?b)) CodeBlock])"
    by (simp add: step_fence [OF assms] b)
  have 2: "?b = take (length ?b) (drop (i + 1) lines)"
    unfolding b by (metis takeWhile_eq_take)
  have 3: "list_all ?P ?b"
    unfolding b by (auto simp: list_all_iff dest: set_takeWhileD)
  have 4: "startswith (strip (lines ! (i + 1 + length ?b))) fence"
    if lt: "i + 1 + length ?b < length lines"
  proof -
    have "length ?b < length (drop (i + 1) lines)" using lt by simp
    then have "\<not> ?P (drop (i + 1) lines ! length ?b)"
      unfolding b by (rule nth_length_takeWhile)
    moreover have "drop (i + 1) lines ! length ?b = lines ! (i + 1 + length ?b)"
      using lt by simp
    ultimately show ?thesis by simp
  qed
  have 5: "?b = drop (i + 1) lines" if ge: "\<not> i + 1 + length ?b < length lines"
  proof -
    have "length ?b \<le> length (drop (i + 1) lines)"
      unfolding b by (rule length_takeWhile_le)
    with ge have "length (drop (i + 1) lines) = length ?b" by simp
    with 2 show ?thesis by simp
  qed
  show ?thesis using 1 2 3 4 5 by simp
qed

theorem fenced_code_block_content_witness:
  "step (accepts_only []) [''intro\<newline>'', ''```py\<newline>'', ''*a* `b` \<newline>'', ''  # c\<newline>'', ''```\<newline>'', ''end\<newline>''] 1 =
     Inr (5, [Preformatted ''*a* `b`\<newline>  # c'' CodeBlock]) \<and>
   fence_body [''intro\<newline>'', ''```py\<newline>'', ''*a* `b` \<newline>'', ''  # c\<newline>'', ''```\<newline>'', ''end\<newline>''] 1 =
     [''*a* `b` \<newline>'', ''  # c\<newline>'']"
proof -
  have a: "(1::nat) < length [''intro\<newline>'', ''```py\<newline>'', ''*a* `b` \<newline>'', ''  # c\<newline>'', ''```\<newline>'', ''end\<newline>'']"
    by simp
  have b: "startswith (rstrip ([''intro\<newline>'', ''```py\<newline>'', ''*a* `b` \<newline>'', ''  # c\<newline>'', ''```\<newline>'', ''end\<newline>''] ! 1)) fence"
    by code_simp
  have c: "fence_body [''intro\<newline>'', ''```py\<newline>'', ''*a* `b` \<newline>'', ''  # c\<newline>'', ''```\<newline>'', ''end\<newline>''] 1 =
     [''*a* `b` \<newline>'', ''  # c\<newline>'']"
    by code_simp
  have d: "join [newline] (map rstrip [''*a* `b` \<newline>'', ''  # c\<newline>'']) = ''*a* `b`\<newline>  # c''"
    by code_simp
  from fenced_code_block_content [OF a b] have
    "step (accepts_only []) [''intro\<newline>'', ''```py\<newline>'', ''*a* `b` \<newline>'', ''  # c\<newline>'', ''```\<newline>'', ''end\<newline>''] 1 =
       Inr (1 + length (fence_body [''intro\<newline>'', ''```py\<newline>'', ''*a* `b` \<newline>'', ''  # c\<newline>'', ''```\<newline>'', ''end\<newline>''] 1) + 2,
            [Preformatted (join [newline] (map rstrip (fence_body [''intro\<newline>'', ''```py\<newline>'', ''*a* `b` \<newline>'', ''  # c\<newline>'', ''```\<newline>'', ''end\<newline>''] 1))) CodeBlock])"
    by (rule conjunct1)
  then have "step (accepts_only []) [''intro\<newline>'', ''```py\<newline>'', ''*a* `b` \<newline>'', ''  # c\<newline>'', ''```\<newline>'', ''end\<newline>''] 1 =
     Inr (5, [Preformatted ''*a* `b`\<newline>  # c'' CodeBlock])"
    unfolding c d by simp
  then show ?thesis using c by (rule conjI)
qed

text \<open>
  C5, as the claim states it: the span patterns match over any content, the empty string
  included, so that an empty delimited span is rewritten into an empty markup span. The
  patterns are written with \<open>.+?\<close>, one character or more: two adjacent backticks stay
  as they are, and in \<open>****\<close> the double-asterisk pattern finds nothing, after which the
  single-asterisk pattern reads the second asterisk as the content of an italic span.
\<close>

theorem empty_spans_not_rewritten:
  "format_inline ''``'' = ''``'' \<and> format_inline ''****'' = ''<i>*</i>*''"
  by code_simp

text \<open>
  C5, amended. Each of the four span patterns matches non-greedily over a content of one
  character or more, never over the empty string. The pattern matches at the start of \<open>s\<close>
  with group \<open>g\<close> and rest \<open>r\<close> exactly when \<open>s\<close> is the delimiter, \<open>g\<close>, the delimiter
  and \<open>r\<close>, where \<open>g\<close> is not empty, holds no newline, and is the shortest such content:
  the delimiter stands at no earlier position behind the first character of \<open>g\<close>. The
  substitution replaces such a match by the markup around \<open>g\<close> and goes on behind it;
  where the pattern does not match it keeps the character and goes on with the next. So
  no empty markup span is ever written. An empty span alone, the delimiter twice with
  nothing behind it, is left as it is by its pattern. When a further delimiter follows,
  the second delimiter of the pair is read as the beginning of the content: \<open>**** x **\<close>
  becomes a bold span around \<open>** x \<close>, and two backticks, \<open> x \<close> and a backtick become a
  font span around a backtick and \<open> x \<close>.
\<close>

theorem span_content_not_empty:
  "(match_span d s = Some (g, r) \<longleftrightarrow>
      g \<noteq> [] \<and> s = d @ g @ d @ r \<and> newline \<notin> set g \<and>
      (\<forall>k. 1 \<le> k \<and> k < length g \<longrightarrow> \<not> startswith (drop k (g @ d @ r)) d)) \<and>
   match_span d s \<noteq> Some ([], r) \<and>
   (match_span d s = Some (g, r) \<longrightarrow>
      sub_span d opn cls s = opn @ g @ cls @ sub_span d opn cls r) \<and>
   (match_span d s = None \<longrightarrow> s \<noteq> [] \<longrightarrow>
      sub_span d opn cls s = hd s # sub_span d opn cls (tl s)) \<and>
   sub_span d opn cls [] = [] \<and>
   (d \<noteq> [] \<longrightarrow> sub_span d opn cls (d @ d) = d @ d) \<and>
   format_inline ''**** x **'' = ''<b>** x </b>'' \<and>
   format_inline ''`` x `'' = font_open @ ''` x </font>''"
proof (intro conjI impI)
  show "match_span d s = Some (g, r) \<longleftrightarrow>
      g \<noteq> [] \<and> s = d @ g @ d @ r \<and> newline \<notin> set g \<and>
      (\<forall>k. 1 \<le> k \<and> k < length g \<longrightarrow> \<not> startswith (drop k (g @ d @ r)) d)"
    by (rule match_span_iff)
next
  show "match_span d s \<noteq> Some ([], r)"
    by (simp add: match_span_iff)
next
  assume m: "match_span d s = Some (g, r)"
  then have "s \<noteq> []" by (auto simp: match_span_iff)
  with m show "sub_span d opn cls s = opn @ g @ cls @ sub_span d opn cls r"
    by (simp add: sub_span.simps [of d opn cls s])
next
  assume "match_span d s = None" and "s \<noteq> []"
  then show "sub_span d opn cls s = hd s # sub_span d opn cls (tl s)"
    by (simp add: sub_span.simps [of d opn cls s])
next
  show "sub_span d opn cls [] = []"
    by (simp add: sub_span.simps [of d opn cls "[]"])
next
  assume "d \<noteq> []"
  then show "sub_span d opn cls (d @ d) = d @ d"
    by (intro sub_span_short) simp_all
next
  show "format_inline ''**** x **'' = ''<b>** x </b>''" by code_simp
next
  show "format_inline ''`` x `'' = font_open @ ''` x </font>''" by code_simp
qed

theorem span_content_not_empty_witness:
  "match_span ''**'' ''**bold** rest'' = Some (''bold'', '' rest'') \<and>
   sub_span ''**'' ''<b>'' ''</b>'' ''**bold** rest'' = ''<b>bold</b> rest'' \<and>
   sub_span ''**'' ''<b>'' ''</b>'' ''x**'' = ''x**'' \<and>
   sub_span ''**'' ''<b>'' ''</b>'' ''****'' = ''****'' \<and>
   sub_span ''`'' font_open ''</font>'' ''``'' = ''``''"
proof -
  have m: "match_span ''**'' ''**bold** rest'' = Some (''bold'', '' rest'')" by code_simp
  have t: "opn @ ''bold'' @ cls @ sub_span ''**'' ''<b>'' ''</b>'' '' rest'' = ''<b>bold</b> rest''"
    if "opn = ''<b>''" and "cls = ''</b>''" for opn cls
    unfolding that by code_simp
  have 1: "sub_span ''**'' ''<b>'' ''</b>'' ''**bold** rest'' =
           ''<b>'' @ ''bold'' @ ''</b>'' @ sub_span ''**'' ''<b>'' ''</b>'' '' rest''"
    by (rule span_content_not_empty
          [THEN conjunct2, THEN conjunct2, THEN conjunct1, THEN mp, OF m])
  have n: "match_span ''**'' ''x**'' = None" and ne: "''x**'' \<noteq> []" by code_simp+
  have 2: "sub_span ''**'' ''<b>'' ''</b>'' ''x**'' =
           hd ''x**'' # sub_span ''**'' ''<b>'' ''</b>'' (tl ''x**'')"
    by (rule span_content_not_empty
          [THEN conjunct2, THEN conjunct2, THEN conjunct2, THEN conjunct1, THEN mp, THEN mp,
           OF n ne])
  have e2: "hd ''x**'' # sub_span ''**'' ''<b>'' ''</b>'' (tl ''x**'') = ''x**''" by code_simp
  have d1: "''**'' \<noteq> []" and d2: "''`'' \<noteq> []" by simp_all
  have 3: "sub_span ''**'' ''<b>'' ''</b>'' (''**'' @ ''**'') = ''**'' @ ''**''"
    by (rule span_content_not_empty
          [THEN conjunct2, THEN conjunct2, THEN conjunct2, THEN conjunct2, THEN conjunct2,
           THEN conjunct1, THEN mp, OF d1])
  have 4: "sub_span ''`'' font_open ''</font>'' (''`'' @ ''`'') = ''`'' @ ''`''"
    by (rule span_content_not_empty
          [THEN conjunct2, THEN conjunct2, THEN conjunct2, THEN conjunct2, THEN conjunct2,
           THEN conjunct1, THEN mp, OF d2])
  have b1: "sub_span ''**'' ''<b>'' ''</b>'' ''**bold** rest'' = ''<b>bold</b> rest''"
    using 1 t [OF refl refl] by simp
  have b3: "sub_span ''**'' ''<b>'' ''</b>'' ''****'' = ''****''" using 3 by simp
  have b4: "sub_span ''`'' font_open ''</font>'' ''``'' = ''``''" using 4 by simp
  from m b1 2 [unfolded e2] b3 b4 show ?thesis by (intro conjI)
qed

text \<open>
  C6. Whenever the table lookahead fires and the collecting loop gathers fewer than three
  lines, the iteration emits nothing for them: no table, no paragraph, no spacer, no
  error. The cursor moves behind the collected lines, of which there is at least one, and
  the scan goes on from there with the story unchanged.
\<close>

theorem short_table_emits_nothing:
  assumes "i < length lines"
    and "reaches_table_rule (rstrip (lines ! i))"
    and "table_start lines i (rstrip (lines ! i)) = Inr True"
    and "collect_table lines i [] = Inr (j, table_lines)"
    and "length table_lines < 3"
  shows "step accepts lines i = Inr (j, []) \<and>
         j = i + length table_lines \<and> 1 \<le> length table_lines \<and>
         table_lines = map rstrip (take (length table_lines) (drop i lines)) \<and>
         scan_loop accepts lines i story = scan_loop accepts lines j story"
proof -
  let ?run = "takeWhile (\<lambda>l. contains l ''|'') (drop i lines)"
  from assms(4) have j: "j = i + length ?run" and tl: "table_lines = map rstrip ?run"
    by (simp_all add: collect_table_eq)
  from assms(5) have "parse_table accepts (map rstrip ?run) = Inr None"
    by (simp add: parse_table_def tl)
  then have st: "step accepts lines i = Inr (j, [])"
    by (simp add: step_table_rule [OF assms(1-3)] j)
  from assms(3) have "contains (rstrip (lines ! i)) ''|''"
    by (auto simp: table_start_def split: if_splits sum.splits)
  then have "contains (lines ! i) ''|''" by (rule contains_rstrip_char)
  then have ne: "?run \<noteq> []"
    using assms(1) by (simp add: Cons_nth_drop_Suc [symmetric])
  have "?run = take (length ?run) (drop i lines)"
    by (metis takeWhile_eq_take)
  then have "map rstrip ?run = map rstrip (take (length (map rstrip ?run)) (drop i lines))"
    by simp
  then have c3: "table_lines = map rstrip (take (length table_lines) (drop i lines))"
    unfolding tl .
  have c1: "j = i + length table_lines" by (simp add: j tl)
  have c2: "1 \<le> length table_lines" using ne by (cases ?run) (simp_all add: tl)
  have c4: "scan_loop accepts lines i story = scan_loop accepts lines j story"
    using scan_loop_unfold [OF assms(1) st, of story] by simp
  from st c1 c2 c3 c4 show ?thesis by blast
qed

theorem short_table_emits_nothing_witness:
  "step (accepts_only [''x'']) [''a | b\<newline>'', ''---\<newline>'', ''x\<newline>''] 0 = Inr (1, []) \<and>
   scan (accepts_only [''x'']) [''a | b\<newline>'', ''---\<newline>'', ''x\<newline>''] =
     Inr [Spacer 3, HRFlowable 5 ''#dddddd'', Spacer 3, Paragraph ''x'' BodyText2]"
proof -
  have a: "(0::nat) < length [''a | b\<newline>'', ''---\<newline>'', ''x\<newline>'']" by simp
  have b: "reaches_table_rule (rstrip ([''a | b\<newline>'', ''---\<newline>'', ''x\<newline>''] ! 0))"
    by code_simp
  have c: "table_start [''a | b\<newline>'', ''---\<newline>'', ''x\<newline>''] 0
             (rstrip ([''a | b\<newline>'', ''---\<newline>'', ''x\<newline>''] ! 0)) = Inr True"
    by code_simp
  have d: "collect_table [''a | b\<newline>'', ''---\<newline>'', ''x\<newline>''] 0 [] = Inr (1, [''a | b''])"
    by code_simp
  have e: "length [''a | b''] < 3" by simp
  have s: "scan (accepts_only [''x'']) [''a | b\<newline>'', ''---\<newline>'', ''x\<newline>''] =
     Inr [Spacer 3, HRFlowable 5 ''#dddddd'', Spacer 3, Paragraph ''x'' BodyText2]"
    by code_simp
  from short_table_emits_nothing [OF a b c d e] s show ?thesis by simp
qed




text \<open>
  C8. Blocks are emitted in the order of the lines that define them, and no block spans
  lines that an earlier block consumed: the iterations of the loop form a chain of line
  ranges, each starting where the one before ended and each at least one line long; every
  iteration appends what \<open>step\<close> yields at its start line, and the story is these lists
  in that order. The document of the four lines \<open># Title\<close>, \<open>## Section\<close>,
  \<open>- item one\<close>, \<open>plain text with **bold**\<close> yields the Title, then the spacer, the
  rule and the SectionHeading, then the ListItem, then the Paragraph with the text
  \<open>plain text with <b>bold</b>\<close>; the four texts handed to \<open>Paragraph\<close> there are plain
  text, an entity and a balanced \<open><b>\<close> pair, markup that \<open>Paragraph\<close> accepts.
\<close>

theorem blocks_in_source_order:
  "(case iterations accepts lines 0 of
      Inl e \<Rightarrow> scan accepts lines = Inl e
    | Inr tr \<Rightarrow>
        chained 0 tr \<and>
        list_all (\<lambda>(s, e, new). s < length lines \<and> step accepts lines s = Inr (e, new)) tr \<and>
        scan accepts lines = Inr (concat (map (\<lambda>(s, e, new). new) tr)))
   \<and> (accepts ''Title'' \<and> accepts ''Section'' \<and> accepts ''&bull; item one'' \<and>
      accepts ''plain text with <b>bold</b>'' \<longrightarrow>
      scan accepts [''# Title\<newline>'', ''## Section\<newline>'', ''- item one\<newline>'',
                    ''plain text with **bold**\<newline>''] =
        Inr [Paragraph ''Title'' DocTitle,
             Spacer 3, HRFlowable 10 ''#cccccc'', Paragraph ''Section'' H2,
             Paragraph ''&bull; item one'' BulletItem,
             Paragraph ''plain text with <b>bold</b>'' BodyText2])"
proof (intro conjI impI)
  show "case iterations accepts lines 0 of
      Inl e \<Rightarrow> scan accepts lines = Inl e
    | Inr tr \<Rightarrow>
        chained 0 tr \<and>
        list_all (\<lambda>(s, e, new). s < length lines \<and> step accepts lines s = Inr (e, new)) tr \<and>
        scan accepts lines = Inr (concat (map (\<lambda>(s, e, new). new) tr))"
  proof (cases "iterations accepts lines 0")
    case (Inl e)
    then show ?thesis by (simp add: scan_def scan_loop_iterations)
  next
    case (Inr tr)
    from iterations_props [OF Inr] Inr show ?thesis
      by (simp add: scan_def scan_loop_iterations)
  qed
next
  assume a: "accepts ''Title'' \<and> accepts ''Section'' \<and> accepts ''&bull; item one'' \<and>
      accepts ''plain text with <b>bold</b>''"
  have s: "scan (accepts_only [''Title'', ''Section'', ''&bull; item one'',
                              ''plain text with <b>bold</b>''])
             [''# Title\<newline>'', ''## Section\<newline>'', ''- item one\<newline>'',
              ''plain text with **bold**\<newline>''] =
        Inr [Paragraph ''Title'' DocTitle,
             Spacer 3, HRFlowable 10 ''#cccccc'', Paragraph ''Section'' H2,
             Paragraph ''&bull; item one'' BulletItem,
             Paragraph ''plain text with <b>bold</b>'' BodyText2]"
    by code_simp
  have m: "accepts_only [''Title'', ''Section'', ''&bull; item one'',
                         ''plain text with <b>bold</b>''] t \<Longrightarrow> accepts t" for t
    using a by (auto simp: accepts_only_def)
  show "scan accepts [''# Title\<newline>'', ''## Section\<newline>'', ''- item one\<newline>'',
                    ''plain text with **bold**\<newline>''] =
        Inr [Paragraph ''Title'' DocTitle,
             Spacer 3, HRFlowable 10 ''#cccccc'', Paragraph ''Section'' H2,
             Paragraph ''&bull; item one'' BulletItem,
             Paragraph ''plain text with <b>bold</b>'' BodyText2]"
    by (rule scan_mono [OF s m])
qed

theorem blocks_in_source_order_witness:
  "iterations (accepts_only [''A'', ''&bull; b''])
              [''## A\<newline>'', ''\<newline>'', ''```\<newline>'', ''x\<newline>'', ''```\<newline>'', ''- b''] 0 =
     Inr [(0, 1, [Spacer 3, HRFlowable 10 ''#cccccc'', Paragraph ''A'' H2]),
          (1, 2, []),
          (2, 5, [Preformatted ''x'' CodeBlock]),
          (5, 6, [Paragraph ''&bull; b'' BulletItem])]
   \<and> chained 0 [(0, 1, [Spacer 3, HRFlowable 10 ''#cccccc'', Paragraph ''A'' H2]),
          (1, 2, []),
          (2, 5, [Preformatted ''x'' CodeBlock]),
          (5::nat, 6::nat, [Paragraph ''&bull; b'' BulletItem])]
   \<and> scan (accepts_only [''A'', ''&bull; b''])
           [''## A\<newline>'', ''\<newline>'', ''```\<newline>'', ''x\<newline>'', ''```\<newline>'', ''- b''] =
     Inr [Spacer 3, HRFlowable 10 ''#cccccc'', Paragraph ''A'' H2,
          Preformatted ''x'' CodeBlock, Paragraph ''&bull; b'' BulletItem]
   \<and> scan (accepts_only [''Title'', ''Section'', ''&bull; item one'',
                          ''plain text with <b>bold</b>''])
           [''# Title\<newline>'', ''## Section\<newline>'', ''- item one\<newline>'',
            ''plain text with **bold**\<newline>''] =
        Inr [Paragraph ''Title'' DocTitle,
             Spacer 3, HRFlowable 10 ''#cccccc'', Paragraph ''Section'' H2,
             Paragraph ''&bull; item one'' BulletItem,
             Paragraph ''plain text with <b>bold</b>'' BodyText2]"
proof -
  let ?A = "accepts_only [''A'', ''&bull; b'']"
  let ?L = "[''## A\<newline>'', ''\<newline>'', ''```\<newline>'', ''x\<newline>'', ''```\<newline>'', ''- b'']"
  let ?B = "accepts_only [''Title'', ''Section'', ''&bull; item one'',
                          ''plain text with <b>bold</b>'']"
  have it: "iterations ?A ?L 0 =
     Inr [(0, 1, [Spacer 3, HRFlowable 10 ''#cccccc'', Paragraph ''A'' H2]),
          (1, 2, []),
          (2, 5, [Preformatted ''x'' CodeBlock]),
          (5, 6, [Paragraph ''&bull; b'' BulletItem])]"
    by code_simp
  have b: "?B ''Title'' \<and> ?B ''Section'' \<and> ?B ''&bull; item one'' \<and>
           ?B ''plain text with <b>bold</b>''"
    by code_simp
  have 1: "chained 0 [(0, 1, [Spacer 3, HRFlowable 10 ''#cccccc'', Paragraph ''A'' H2]),
          (1, 2, []),
          (2, 5, [Preformatted ''x'' CodeBlock]),
          (5::nat, 6::nat, [Paragraph ''&bull; b'' BulletItem])]
     \<and> scan ?A ?L =
     Inr [Spacer 3, HRFlowable 10 ''#cccccc'', Paragraph ''A'' H2,
          Preformatted ''x'' CodeBlock, Paragraph ''&bull; b'' BulletItem]"
    using blocks_in_source_order [of ?A ?L, THEN conjunct1]
    unfolding it by simp
  have 2: "scan ?B [''# Title\<newline>'', ''## Section\<newline>'', ''- item one\<newline>'',
            ''plain text with **bold**\<newline>''] =
        Inr [Paragraph ''Title'' DocTitle,
             Spacer 3, HRFlowable 10 ''#cccccc'', Paragraph ''Section'' H2,
             Paragraph ''&bull; item one'' BulletItem,
             Paragraph ''plain text with <b>bold</b>'' BodyText2]"
    by (rule blocks_in_source_order [THEN conjunct2, THEN mp, OF b])
  from it 1 2 show ?thesis by (intro conjI) simp_all
qed

text \<open>
  C9. The scanning loop terminates on every finite list of lines: an iteration that
  completes leaves the cursor strictly behind where it found it. At a fence line the cursor
  moves at least two lines on, past the opening fence, whether or not a closing fence
  exists; when the table branch is taken the current line itself holds a \<open>|\<close>, so the
  collecting loop consumes it. The loop therefore runs at most as many iterations as there
  are lines. (The definitions of \<open>scan_loop\<close> and \<open>iterations\<close> rest on this decrease: it
  is their termination proof.)
\<close>

theorem cursor_strictly_increases:
  "(i < length lines \<longrightarrow>
      (case step accepts lines i of Inl e \<Rightarrow> True | Inr (i', new) \<Rightarrow> i < i')) \<and>
   (i < length lines \<longrightarrow> startswith (rstrip (lines ! i)) fence \<longrightarrow>
      (\<exists>i' new. step accepts lines i = Inr (i', new) \<and> i + 2 \<le> i')) \<and>
   (i < length lines \<longrightarrow> reaches_table_rule (rstrip (lines ! i)) \<longrightarrow>
      table_start lines i (rstrip (lines ! i)) = Inr True \<longrightarrow>
      contains (lines ! i) ''|'' \<and>
      (case step accepts lines i of Inl e \<Rightarrow> True | Inr (i', new) \<Rightarrow> i < i')) \<and>
   (case iterations accepts lines 0 of Inl e \<Rightarrow> True | Inr tr \<Rightarrow> length tr \<le> length lines)"
proof (intro conjI impI)
  assume "i < length lines"
  then show "case step accepts lines i of Inl e \<Rightarrow> True | Inr (i', new) \<Rightarrow> i < i'"
    by (auto split: sum.splits dest: step_advances)
next
  assume "i < length lines" and "startswith (rstrip (lines ! i)) fence"
  then show "\<exists>i' new. step accepts lines i = Inr (i', new) \<and> i + 2 \<le> i'"
    by (simp add: step_fence)
next
  assume "i < length lines" and "reaches_table_rule (rstrip (lines ! i))"
    and t: "table_start lines i (rstrip (lines ! i)) = Inr True"
  from t have "contains (rstrip (lines ! i)) ''|''"
    by (auto simp: table_start_def split: if_splits sum.splits)
  then show "contains (lines ! i) ''|''" by (rule contains_rstrip_char)
next
  assume "i < length lines"
  then show "case step accepts lines i of Inl e \<Rightarrow> True | Inr (i', new) \<Rightarrow> i < i'"
    by (auto split: sum.splits dest: step_advances)
next
  show "case iterations accepts lines 0 of Inl e \<Rightarrow> True | Inr tr \<Rightarrow> length tr \<le> length lines"
    using iterations_props [of accepts lines 0] by (auto split: sum.splits)
qed

theorem cursor_strictly_increases_witness:
  "(\<exists>i' new. step (accepts_only []) [''```\<newline>'', ''x\<newline>'', ''y''] 0 = Inr (i', new) \<and> 0 + 2 \<le> i') \<and>
   step (accepts_only []) [''```\<newline>'', ''x\<newline>'', ''y''] 0 = Inr (4, [Preformatted ''x\<newline>y'' CodeBlock]) \<and>
   iterations (accepts_only []) [''```\<newline>'', ''x\<newline>'', ''y''] 0 = Inr [(0, 4, [Preformatted ''x\<newline>y'' CodeBlock])] \<and>
   contains ([''a | b\<newline>'', ''---\<newline>''] ! 0) ''|'' \<and>
   step (accepts_only []) [''a | b\<newline>'', ''---\<newline>''] 0 = Inr (1, [])"
proof -
  have a: "(0::nat) < length [''```\<newline>'', ''x\<newline>'', ''y'']" by simp
  have b: "startswith (rstrip ([''```\<newline>'', ''x\<newline>'', ''y''] ! 0)) fence" by code_simp
  have c: "step (accepts_only []) [''```\<newline>'', ''x\<newline>'', ''y''] 0 = Inr (4, [Preformatted ''x\<newline>y'' CodeBlock])"
    by code_simp
  have d: "iterations (accepts_only []) [''```\<newline>'', ''x\<newline>'', ''y''] 0 = Inr [(0, 4, [Preformatted ''x\<newline>y'' CodeBlock])]"
    by code_simp
  have e: "\<exists>i' new. step (accepts_only []) [''```\<newline>'', ''x\<newline>'', ''y''] 0 = Inr (i', new) \<and> 0 + 2 \<le> i'"
    by (rule cursor_strictly_increases
          [THEN conjunct2, THEN conjunct1, THEN mp, THEN mp, OF a b])
  have a': "(0::nat) < length [''a | b\<newline>'', ''---\<newline>'']" by simp
  have r: "reaches_table_rule (rstrip ([''a | b\<newline>'', ''---\<newline>''] ! 0))" by code_simp
  have t: "table_start [''a | b\<newline>'', ''---\<newline>''] 0 (rstrip ([''a | b\<newline>'', ''---\<newline>''] ! 0)) = Inr True"
    by code_simp
  have s: "step (accepts_only []) [''a | b\<newline>'', ''---\<newline>''] 0 = Inr (1, [])" by code_simp
  have f: "contains ([''a | b\<newline>'', ''---\<newline>''] ! 0) ''|''"
    by (rule cursor_strictly_increases
          [THEN conjunct2, THEN conjunct2, THEN conjunct1, THEN mp, THEN mp, THEN mp,
           THEN conjunct1, OF a' r t])
  from e c d f s show ?thesis by (intro conjI)
qed




end
